theory Spec2Isabelle
  imports Complex_Main "HOL-Library.Word"
begin

section \<open>The generic hash map of libk (include/libk/hashmap.h)\<close>

text \<open>
  The macro \<^verbatim>\<open>GENERATE_HASHMAP(key_type, value_type)\<close> generates, for one key type and one
  value type, an entry struct, a hash map struct and the functions \<^verbatim>\<open>add\<close>, \<^verbatim>\<open>get\<close>,
  \<^verbatim>\<open>delete\<close> and \<^verbatim>\<open>new\<close>. The embedding below is polymorphic in the two types and takes
  the functions the macro looks up by name (\<^verbatim>\<open>key_type_hash\<close>, \<^verbatim>\<open>key_type_equals\<close>,
  \<^verbatim>\<open>copy_key_type\<close>, \<^verbatim>\<open>copy_value_type\<close>) as a record of functions. The function pointers
  stored in the struct always point to the generated functions and are left out.

  The capability functions are what the macro's calls compute from the arguments the
  macro passes: \<open>hash\<close> from a key, \<open>equals\<close> from the caller's key and a stored key,
  \<open>copy_key\<close> and \<open>copy_value\<close> from the key and the value passed to \<^verbatim>\<open>add\<close>. What they
  compute for the one instance the header generates, \<^verbatim>\<open>GENERATE_HASHMAP(int, int)\<close>, is
  defined below from types.h.

  Memory allocation is taken to succeed. A C operation whose behaviour is undefined (a
  remainder by a zero capacity, an index beyond the bucket array, a push on a null
  vector) makes the model return \<open>None\<close>.
\<close>

subsection \<open>Constants\<close>

definition DEFAULT_BUCKET_SIZE :: "32 word" where
  "DEFAULT_BUCKET_SIZE = 127"

definition LOAD_FACTOR :: real where
  "LOAD_FACTOR = 0.75"

subsection \<open>Capabilities of the key and value types\<close>

record ('k, 'v) caps =
  hash :: "'k \<Rightarrow> 32 word"
  equals :: "'k \<Rightarrow> 'k \<Rightarrow> bool"
  copy_key :: "'k \<Rightarrow> 'k"
  copy_value :: "'v \<Rightarrow> 'v"

text \<open>
  The functions that \<^verbatim>\<open>GENERATE_FNS_FOR_PRIMITIVE(int)\<close> of types.h generates take
  pointers: \<^verbatim>\<open>int_hash(int* i)\<close> returns \<^verbatim>\<open>*i\<close>, \<^verbatim>\<open>int_equals(int* i1, int* i2)\<close>
  returns \<^verbatim>\<open>*i1 == *i2\<close>, and \<^verbatim>\<open>copy_int(int* i, int* output)\<close> stores \<^verbatim>\<open>*i\<close>. An
  \<^verbatim>\<open>int\<close> and an address are 32-bit words; the memory gives the \<^verbatim>\<open>int\<close> read at each
  address. A read of an address that is not mapped is a fault: the memory here has a
  content at every address, so the instance describes the runs in which the reads succeed.
  The functions of the table are taken not to write the locations its keys and values
  point to.
\<close>

type_synonym memory = "32 word \<Rightarrow> 32 word"

definition int_hash :: "memory \<Rightarrow> 32 word \<Rightarrow> 32 word" where
  "int_hash mem i = mem i"

definition int_equals :: "memory \<Rightarrow> 32 word \<Rightarrow> 32 word \<Rightarrow> bool" where
  "int_equals mem i1 i2 = (mem i1 = mem i2)"

definition copy_int :: "memory \<Rightarrow> 32 word \<Rightarrow> 32 word" where
  "copy_int mem i = mem i"

text \<open>
  The capabilities of \<^verbatim>\<open>GENERATE_HASHMAP(int, int)\<close>, as the macro calls them.
  \<^item> \<^verbatim>\<open>int_hash(&key)\<close> in \<^verbatim>\<open>add\<close> and \<^verbatim>\<open>int_hash(key)\<close> in \<^verbatim>\<open>get\<close> (where \<^verbatim>\<open>key\<close> is the
    caller's pointer) are called with the address of the location that holds the key, and
    return the key.
  \<^item> \<^verbatim>\<open>copy_int(key, &entry.key)\<close> and \<^verbatim>\<open>copy_int(value, &entry.value)\<close> in \<^verbatim>\<open>add\<close> are
    called with the \<^verbatim>\<open>int\<close> itself where the function takes a pointer: the entry gets
    the \<^verbatim>\<open>int\<close> read at the address that the key (the value) is.
  \<^item> \<^verbatim>\<open>int_equals(*key, entry.key)\<close> in \<^verbatim>\<open>get\<close> is called with two \<^verbatim>\<open>int\<close>s where the
    function takes two pointers: it compares the \<^verbatim>\<open>int\<close>s read at the two addresses.
\<close>

definition int_to_int :: "memory \<Rightarrow> (32 word, 32 word) caps" where
  "int_to_int mem =
     \<lparr>hash = (\<lambda>key. key), equals = int_equals mem, copy_key = copy_int mem,
      copy_value = copy_int mem\<rparr>"

subsection \<open>Entries, calls to collaborators, vectors\<close>

datatype ('k, 'v) entry = Entry (entry_key: 'k) (entry_value: 'v)

text \<open>
  The calls a function makes to its collaborators (the resize function, the vector
  functions, the capability functions and the allocator) are recorded in the order in
  which they are made, so that they can be counted.
\<close>

datatype ('k, 'v) call =
    Call_hashmap_resize
  | Call_new_vector nat
  | Call_copy_key 'k
  | Call_copy_value 'v
  | Call_push nat
  | Call_vector_delete nat
  | Call_delete_key 'k
  | Call_delete_value 'v
  | Call_kfree_buckets
  | Call_kfree_hashmap

type_synonym 'a vector = "'a list"

definition new_vector :: "'a vector" where
  \<comment> \<open>Modelled from the spec: \<^verbatim>\<open>new_..._entry_vector\<close> of libk/vector.h is missing;
      \<^verbatim>\<open>create()\<close> gives an empty sequence.\<close>
  "new_vector = []"

definition push :: "'a vector \<Rightarrow> 'a \<Rightarrow> 'a vector" where
  \<comment> \<open>Modelled from the spec: \<^verbatim>\<open>push\<close> of libk/vector.h is missing;
      \<^verbatim>\<open>append(seq, entry)\<close> adds the entry at the end of the sequence.\<close>
  "push v e = v @ [e]"

definition vector_size :: "'a vector \<Rightarrow> nat" where
  \<comment> \<open>Modelled from the spec: the \<^verbatim>\<open>size\<close> field of a vector of libk/vector.h is missing;
      \<^verbatim>\<open>size(seq)\<close> is the number of entries.\<close>
  "vector_size v = length v"

definition vector_get :: "'a vector \<Rightarrow> nat \<Rightarrow> 'a option" where
  \<comment> \<open>Modelled from the spec: \<^verbatim>\<open>get\<close> of libk/vector.h is missing; \<^verbatim>\<open>get(seq, index)\<close> is a
      bounds-checked read, not ok when the index is out of range.\<close>
  "vector_get v i = (if i < length v then Some (v ! i) else None)"

definition vector_delete :: "nat \<Rightarrow> 'a vector \<Rightarrow> ('k, 'v) call list" where
  \<comment> \<open>Modelled from the spec: \<^verbatim>\<open>delete\<close> of libk/vector.h is missing; \<^verbatim>\<open>destroy(seq)\<close>
      releases the storage of the sequence only and calls no destroy function of an
      entry.\<close>
  "vector_delete i v = [Call_vector_delete i]"

definition copy_entry :: "('k, 'v) caps \<Rightarrow> ('k, 'v) entry \<Rightarrow> ('k, 'v) entry" where
  "copy_entry c to_copy =
     Entry (copy_key c (entry_key to_copy)) (copy_value c (entry_value to_copy))"

definition delete_entry :: "('k, 'v) entry \<Rightarrow> ('k, 'v) call list" where
  "delete_entry to_delete =
     [Call_delete_key (entry_key to_delete), Call_delete_value (entry_value to_delete)]"

subsection \<open>The hash map\<close>

record ('k, 'v) hashmap =
  size_hm :: "32 word"
  capacity :: "32 word"
  entry_size :: nat
  buckets :: "('k, 'v) entry vector option list"

text \<open>
  The test \<^verbatim>\<open>hashmap->size > hashmap->capacity * LOAD_FACTOR\<close> converts both
  \<^verbatim>\<open>uint32_t\<close> fields to \<^verbatim>\<open>double\<close>. Both conversions and the product with 0.75 are exact
  in double precision (the product of a 32-bit number and 3/4 has at most 34 significant
  bits), so the comparison is the comparison of the real numbers.
\<close>

definition load_exceeded :: "('k, 'v) hashmap \<Rightarrow> bool" where
  "load_exceeded hashmap \<longleftrightarrow>
     real (unat (size_hm hashmap)) > real (unat (capacity hashmap)) * LOAD_FACTOR"

definition grow_if_needed ::
  "(('k, 'v) hashmap \<Rightarrow> ('k, 'v) hashmap) \<Rightarrow> ('k, 'v) hashmap \<Rightarrow>
     ('k, 'v) hashmap \<times> ('k, 'v) call list" where
  "grow_if_needed resize hashmap =
     (if load_exceeded hashmap then (resize hashmap, [Call_hashmap_resize])
      else (hashmap, []))"

definition ensure_bucket ::
  "('k, 'v) entry vector option list \<Rightarrow> nat \<Rightarrow>
     ('k, 'v) entry vector option list \<times> ('k, 'v) call list" where
  "ensure_bucket bs bucket =
     (case bs ! bucket of
        None \<Rightarrow> (bs[bucket := Some new_vector], [Call_new_vector bucket])
      | Some v \<Rightarrow> (bs, []))"

text \<open>
  \<^verbatim>\<open>add_K_to_V_hashmap\<close>. The function \<^verbatim>\<open>hashmap_resize\<close> is declared in the header and
  defined elsewhere: it is the parameter \<open>resize\<close>.
\<close>

definition add_hashmap ::
  "(('k, 'v) hashmap \<Rightarrow> ('k, 'v) hashmap) \<Rightarrow> ('k, 'v) caps \<Rightarrow> ('k, 'v) hashmap \<Rightarrow>
     'k \<Rightarrow> 'v \<Rightarrow> (('k, 'v) hashmap \<times> ('k, 'v) call list) option" where
  "add_hashmap resize c hashmap k v =
     (case grow_if_needed resize hashmap of (hm, t1) \<Rightarrow>
        if capacity hm = 0 then None
        else
          let bucket = unat (hash c k mod capacity hm) in
          if length (buckets hm) \<le> bucket then None
          else
            (case ensure_bucket (buckets hm) bucket of (bs, t2) \<Rightarrow>
               let entry = Entry (copy_key c k) (copy_value c v) in
               (case bs ! bucket of
                  None \<Rightarrow> None
                | Some vec \<Rightarrow>
                    Some (hm\<lparr>buckets := bs[bucket := Some (push vec entry)],
                              size_hm := size_hm hm + 1\<rparr>,
                          t1 @ t2 @ [Call_copy_key k, Call_copy_value v, Call_push bucket]))))"

text \<open>
  The loop of \<^verbatim>\<open>get_K_to_V_hashmap\<close> over the indices of the bucket, with the caller's
  output location passed through: the result is the returned boolean and the content of
  the output location.
\<close>

function get_scan ::
  "('k, 'v) caps \<Rightarrow> ('k, 'v) entry vector \<Rightarrow> 'k \<Rightarrow> nat \<Rightarrow> 'v \<Rightarrow> bool \<times> 'v" where
  "get_scan c bucket k i output =
     (if i < vector_size bucket then
        (case vector_get bucket i of
           None \<Rightarrow> get_scan c bucket k (i + 1) output
         | Some entry \<Rightarrow>
             if equals c k (entry_key entry) then (True, entry_value entry)
             else get_scan c bucket k (i + 1) output)
      else (False, output))"
  by pat_completeness auto
termination
  by (relation "measure (\<lambda>(c, bucket, k, i, output). vector_size bucket - i)") auto

text \<open>
  \<^verbatim>\<open>get_K_to_V_hashmap\<close>: the result is the returned boolean, the content of the output
  location and the hash map after the call.
\<close>

definition get_hashmap ::
  "('k, 'v) caps \<Rightarrow> ('k, 'v) hashmap \<Rightarrow> 'k \<Rightarrow> 'v \<Rightarrow>
     (bool \<times> 'v \<times> ('k, 'v) hashmap) option" where
  "get_hashmap c hashmap k output =
     (if capacity hashmap = 0 then None
      else
        let i = unat (hash c k mod capacity hashmap) in
        if length (buckets hashmap) \<le> i then None
        else
          (case buckets hashmap ! i of
             None \<Rightarrow> Some (False, output, hashmap)
           | Some bucket \<Rightarrow>
               (case get_scan c bucket k 0 output of
                  (found, output') \<Rightarrow> Some (found, output', hashmap))))"

text \<open>
  \<^verbatim>\<open>delete_K_to_V_hashmap\<close>: the loop over the bucket array, then the two calls of
  \<^verbatim>\<open>kfree\<close>. The result is the list of calls made.
\<close>

function delete_loop :: "('k, 'v) hashmap \<Rightarrow> nat \<Rightarrow> ('k, 'v) call list option" where
  "delete_loop hashmap i =
     (if i < unat (capacity hashmap) then
        (if length (buckets hashmap) \<le> i then None
         else
           (case buckets hashmap ! i of
              None \<Rightarrow> delete_loop hashmap (i + 1)
            | Some v \<Rightarrow>
                (case delete_loop hashmap (i + 1) of
                   None \<Rightarrow> None
                 | Some t \<Rightarrow> Some (vector_delete i v @ t))))
      else Some [])"
  by pat_completeness auto
termination
  by (relation "measure (\<lambda>(hashmap, i). unat (capacity hashmap) - i)") auto

definition delete_hashmap :: "('k, 'v) hashmap \<Rightarrow> ('k, 'v) call list option" where
  "delete_hashmap hashmap =
     (case delete_loop hashmap 0 of
        None \<Rightarrow> None
      | Some t \<Rightarrow> Some (t @ [Call_kfree_buckets, Call_kfree_hashmap]))"

subsection \<open>Creation and growth\<close>

definition new_hashmap_cap :: "32 word \<Rightarrow> nat \<Rightarrow> ('k, 'v) hashmap" where
  \<comment> \<open>Modelled from the spec: \<^verbatim>\<open>new_hashmap\<close> is declared in the header and defined
      elsewhere; \<^verbatim>\<open>new(initial_capacity)\<close> allocates an all-absent bucket array of the
      given capacity, with zero size.\<close>
  "new_hashmap_cap initial_capacity esz =
     \<lparr>size_hm = 0, capacity = initial_capacity, entry_size = esz,
      buckets = replicate (unat initial_capacity) None\<rparr>"

definition new_hashmap :: "nat \<Rightarrow> ('k, 'v) hashmap" where
  \<comment> \<open>Modelled from the spec: the default initial capacity is \<^verbatim>\<open>DEFAULT_BUCKET_SIZE\<close>.\<close>
  "new_hashmap esz = new_hashmap_cap DEFAULT_BUCKET_SIZE esz"

definition bucket_entries :: "('k, 'v) entry vector option \<Rightarrow> ('k, 'v) entry list" where
  "bucket_entries b = (case b of None \<Rightarrow> [] | Some v \<Rightarrow> v)"

definition all_entries :: "('k, 'v) hashmap \<Rightarrow> ('k, 'v) entry list" where
  "all_entries hashmap = concat (map bucket_entries (buckets hashmap))"

definition rehash_place ::
  "('k, 'v) caps \<Rightarrow> 32 word \<Rightarrow> ('k, 'v) entry vector option list \<Rightarrow> ('k, 'v) entry \<Rightarrow>
     ('k, 'v) entry vector option list" where
  \<comment> \<open>Modelled from the spec: part of the missing \<^verbatim>\<open>hashmap_resize\<close>; an existing entry is
      re-hashed against the new capacity and placed at the end of its new bucket.\<close>
  "rehash_place c new_capacity bs e =
     (let bucket = unat (hash c (entry_key e) mod new_capacity) in
      if bucket < length bs then bs[bucket := Some (push (bucket_entries (bs ! bucket)) e)]
      else bs)"

definition hashmap_resize ::
  "('k, 'v) caps \<Rightarrow> (32 word \<Rightarrow> 32 word) \<Rightarrow> ('k, 'v) hashmap \<Rightarrow> ('k, 'v) hashmap" where
  \<comment> \<open>Modelled from the spec: \<^verbatim>\<open>hashmap_resize\<close> is declared in the header and defined
      elsewhere. The growth rehash takes a new capacity (the spec leaves the growth
      factor open: it is the parameter \<open>grow\<close>), re-hashes every existing entry of every
      old bucket against the new capacity into a new bucket array, and keeps the size.\<close>
  "hashmap_resize c grow hashmap =
     (let new_capacity = grow (capacity hashmap) in
      hashmap\<lparr>capacity := new_capacity,
              buckets := foldl (rehash_place c new_capacity)
                           (replicate (unat new_capacity) None) (all_entries hashmap)\<rparr>)"

definition grow_odd :: "32 word \<Rightarrow> 32 word" where
  \<comment> \<open>Modelled from the spec: one choice of growth, the doubling that the spec names as
      the conventional strategy, kept odd as the spec recommends (127, 255, 511, ...).\<close>
  "grow_odd cap = 2 * cap + 1"

subsection \<open>Sequences of public operations\<close>

text \<open>
  A client calls \<^verbatim>\<open>add\<close> and \<^verbatim>\<open>get\<close> on a table; \<open>Op_get\<close> carries the key and the
  content of the output location before the call.
\<close>

datatype ('k, 'v) op = Op_add 'k 'v | Op_get 'k 'v

fun run ::
  "(('k, 'v) hashmap \<Rightarrow> ('k, 'v) hashmap) \<Rightarrow> ('k, 'v) caps \<Rightarrow> ('k, 'v) op list \<Rightarrow>
     ('k, 'v) hashmap \<Rightarrow> ('k, 'v) hashmap option" where
  "run resize c [] hashmap = Some hashmap"
| "run resize c (Op_add k v # ops) hashmap =
     (case add_hashmap resize c hashmap k v of
        None \<Rightarrow> None
      | Some (hashmap', t) \<Rightarrow> run resize c ops hashmap')"
| "run resize c (Op_get k output # ops) hashmap =
     (case get_hashmap c hashmap k output of
        None \<Rightarrow> None
      | Some (found, output', hashmap') \<Rightarrow> run resize c ops hashmap')"

definition get_after ::
  "(('k, 'v) hashmap \<Rightarrow> ('k, 'v) hashmap) \<Rightarrow> ('k, 'v) caps \<Rightarrow> ('k, 'v) op list \<Rightarrow>
     ('k, 'v) hashmap \<Rightarrow> 'k \<Rightarrow> 'v \<Rightarrow> (bool \<times> 'v) option" where
  "get_after resize c ops hashmap k output =
     (case run resize c ops hashmap of
        None \<Rightarrow> None
      | Some hashmap' \<Rightarrow>
          (case get_hashmap c hashmap' k output of
             None \<Rightarrow> None
           | Some (found, output', hashmap'') \<Rightarrow> Some (found, output')))"

definition delete_after ::
  "(('k, 'v) hashmap \<Rightarrow> ('k, 'v) hashmap) \<Rightarrow> ('k, 'v) caps \<Rightarrow> ('k, 'v) op list \<Rightarrow>
     ('k, 'v) hashmap \<Rightarrow> ('k, 'v) call list option" where
  "delete_after resize c ops hashmap =
     (case run resize c ops hashmap of
        None \<Rightarrow> None
      | Some hashmap' \<Rightarrow> delete_hashmap hashmap')"

definition added_keys :: "('k, 'v) op list \<Rightarrow> 'k list" where
  "added_keys ops = concat (map (\<lambda>x. case x of Op_add k v \<Rightarrow> [k] | Op_get k output \<Rightarrow> []) ops)"

subsection \<open>Invariants of a live table\<close>

definition valid :: "('k, 'v) hashmap \<Rightarrow> bool" where
  "valid hashmap \<longleftrightarrow>
     capacity hashmap \<noteq> 0 \<and> length (buckets hashmap) = unat (capacity hashmap)"

definition entry_count :: "('k, 'v) hashmap \<Rightarrow> nat" where
  "entry_count hashmap =
     sum_list (map (\<lambda>b. case b of None \<Rightarrow> 0 | Some v \<Rightarrow> vector_size v) (buckets hashmap))"

definition placed :: "('k, 'v) caps \<Rightarrow> ('k, 'v) hashmap \<Rightarrow> bool" where
  "placed c hashmap \<longleftrightarrow>
     (\<forall>i \<in> set [0..<length (buckets hashmap)].
        \<forall>e \<in> set (bucket_entries (buckets hashmap ! i)).
          unat (hash c (entry_key e) mod capacity hashmap) = i)"

definition key_bucket :: "('k, 'v) caps \<Rightarrow> ('k, 'v) hashmap \<Rightarrow> 'k \<Rightarrow> ('k, 'v) entry list" where
  "key_bucket c hashmap k =
     bucket_entries (buckets hashmap ! unat (hash c k mod capacity hashmap))"

definition keeps_positive :: "(32 word \<Rightarrow> 32 word) \<Rightarrow> bool" where
  "keeps_positive grow \<longleftrightarrow> (\<forall>cap. cap \<noteq> 0 \<longrightarrow> grow cap \<noteq> 0)"

subsection \<open>What the growth rehash promises\<close>

text \<open>
  The function \<^verbatim>\<open>hashmap_resize\<close> is not part of the header. The properties of
  \<^verbatim>\<open>add\<close> and \<^verbatim>\<open>get\<close> below hold for every resize function that keeps the promises
  the spec makes of the growth rehash; each promise is a predicate on the resize function.
\<close>

definition resize_keeps_valid :: "(('k, 'v) hashmap \<Rightarrow> ('k, 'v) hashmap) \<Rightarrow> bool" where
  \<comment> \<open>The capacity stays above zero and the new bucket array has that many slots.\<close>
  "resize_keeps_valid resize \<longleftrightarrow> (\<forall>hashmap. valid hashmap \<longrightarrow> valid (resize hashmap))"

definition resize_keeps_size :: "(('k, 'v) hashmap \<Rightarrow> ('k, 'v) hashmap) \<Rightarrow> bool" where
  \<comment> \<open>The growth rehash preserves the size exactly.\<close>
  "resize_keeps_size resize \<longleftrightarrow>
     (\<forall>hashmap. valid hashmap \<longrightarrow> size_hm (resize hashmap) = size_hm hashmap)"

definition resize_keeps_count :: "(('k, 'v) hashmap \<Rightarrow> ('k, 'v) hashmap) \<Rightarrow> bool" where
  \<comment> \<open>The growth rehash neither drops nor duplicates an entry.\<close>
  "resize_keeps_count resize \<longleftrightarrow>
     (\<forall>hashmap. valid hashmap \<longrightarrow> entry_count (resize hashmap) = entry_count hashmap)"

definition resize_rehashes ::
  "('k, 'v) caps \<Rightarrow> (('k, 'v) hashmap \<Rightarrow> ('k, 'v) hashmap) \<Rightarrow> bool" where
  \<comment> \<open>Every entry is re-hashed against the new capacity and placed in that bucket.\<close>
  "resize_rehashes c resize \<longleftrightarrow> (\<forall>hashmap. valid hashmap \<longrightarrow> placed c (resize hashmap))"

definition first_match :: "('k, 'v) caps \<Rightarrow> ('k, 'v) hashmap \<Rightarrow> 'k \<Rightarrow> ('k, 'v) entry option" where
  "first_match c hashmap k = List.find (\<lambda>e. equals c k (entry_key e)) (key_bucket c hashmap k)"

definition resize_keeps_first_match ::
  "('k, 'v) caps \<Rightarrow> (('k, 'v) hashmap \<Rightarrow> ('k, 'v) hashmap) \<Rightarrow> 'k \<Rightarrow> bool" where
  \<comment> \<open>A key that was retrievable stays retrievable with the same value, and a key that
      was not does not become retrievable by the growth.\<close>
  "resize_keeps_first_match c resize k \<longleftrightarrow>
     (\<forall>hashmap. valid hashmap \<and> placed c hashmap \<longrightarrow>
        first_match c (resize hashmap) k = first_match c hashmap k)"

subsection \<open>A memory and the tables of the scenarios\<close>

text \<open>
  A memory for the examples. The \<^verbatim>\<open>int\<close> at address 65536 is 7, the \<^verbatim>\<open>int\<close>s at 7 and at
  131 are 5; the \<^verbatim>\<open>int\<close>s at 131073, 131078, 131083, 131088 and 131093 hold their own
  addresses (as after \<^verbatim>\<open>k = (int) &k\<close>); 65540, 65544 and 196608 to 196624 hold values.
\<close>

definition demo_memory :: memory where
  "demo_memory a =
     (if a = 65536 then 7 else if a = 65540 then 99 else if a = 65544 then 98
      else if a = 7 then 5 else if a = 131 then 5
      else if a = 131073 \<or> a = 131078 \<or> a = 131083 \<or> a = 131088 \<or> a = 131093 then a
      else if a = 196608 then 10 else if a = 196612 then 20 else if a = 196616 then 30
      else if a = 196620 then 40 else if a = 196624 then 50 else 0)"

text \<open>
  The table after \<^verbatim>\<open>add\<close> of the keys 131073, 131078 and 131083 with the values at
  196608, 196612 and 196616 to a new table of capacity 4, and the table after \<^verbatim>\<open>add\<close> of
  the key 131088 with the value at 196620 to it.
\<close>

definition scenario_B_table :: "(32 word, 32 word) hashmap" where
  "scenario_B_table =
     \<lparr>size_hm = 3, capacity = 4, entry_size = 8,
      buckets = [None, Some [Entry 131073 10], Some [Entry 131078 20],
                 Some [Entry 131083 30]]\<rparr>"

definition scenario_B_full_table :: "(32 word, 32 word) hashmap" where
  "scenario_B_full_table =
     \<lparr>size_hm = 4, capacity = 4, entry_size = 8,
      buckets = [Some [Entry 131088 40], Some [Entry 131073 10], Some [Entry 131078 20],
                 Some [Entry 131083 30]]\<rparr>"

section \<open>Basic facts\<close>

lemma load_exceeded_nat:
  "load_exceeded hm \<longleftrightarrow> 3 * unat (capacity hm) < 4 * unat (size_hm hm)"
proof -
  have "real (unat (capacity hm)) * (3/4) < real (unat (size_hm hm))
        \<longleftrightarrow> real (3 * unat (capacity hm)) < real (4 * unat (size_hm hm))"
    by (simp add: field_simps)
  then show ?thesis
    unfolding load_exceeded_def LOAD_FACTOR_def
    by (simp only: of_nat_less_iff) (simp add: field_simps)
qed

declare get_scan.simps [simp del] delete_loop.simps [simp del]

lemma bucket_entries_simps [simp]:
  "bucket_entries None = []" "bucket_entries (Some v) = v"
  by (simp_all add: bucket_entries_def)

lemma find_append_first:
  "List.find P (xs @ ys) = (case List.find P xs of None \<Rightarrow> List.find P ys | Some x \<Rightarrow> Some x)"
  by (induction xs) auto

lemma get_scan_find:
  "get_scan c bucket k i out =
     (case List.find (\<lambda>e. equals c k (entry_key e)) (drop i bucket) of
        None \<Rightarrow> (False, out)
      | Some e \<Rightarrow> (True, entry_value e))"
proof (induction c bucket k i out rule: get_scan.induct)
  case (1 c bucket k i out)
  show ?case
  proof (cases "i < length bucket")
    case True
    then have d: "drop i bucket = bucket ! i # drop (Suc i) bucket"
      by (simp add: Cons_nth_drop_Suc)
    show ?thesis
    proof (cases "equals c k (entry_key (bucket ! i))")
      case True
      with \<open>i < length bucket\<close> d show ?thesis
        by (subst get_scan.simps) (simp add: vector_size_def vector_get_def)
    next
      case False
      with \<open>i < length bucket\<close> have
        "get_scan c bucket k (i + 1) out =
           (case List.find (\<lambda>e. equals c k (entry_key e)) (drop (i + 1) bucket) of
              None \<Rightarrow> (False, out) | Some e \<Rightarrow> (True, entry_value e))"
        using "1.IH"(2) [of "bucket ! i"] by (simp add: vector_size_def vector_get_def)
      with False \<open>i < length bucket\<close> d show ?thesis
        by (subst get_scan.simps) (simp add: vector_size_def vector_get_def)
    qed
  next
    case False
    then show ?thesis
      by (subst get_scan.simps) (simp add: vector_size_def)
  qed
qed

lemma idx_less: "cap \<noteq> 0 \<Longrightarrow> unat ((h :: 32 word) mod cap) < unat cap"
  by (simp add: unat_mod unat_gt_0)

lemma get_hashmap_find:
  assumes "valid hm"
  shows "get_hashmap c hm k out =
     Some (case List.find (\<lambda>e. equals c k (entry_key e)) (key_bucket c hm k) of
             None \<Rightarrow> (False, out, hm)
           | Some e \<Rightarrow> (True, entry_value e, hm))"
proof -
  from assms have cap: "capacity hm \<noteq> 0" and len: "length (buckets hm) = unat (capacity hm)"
    by (simp_all add: valid_def)
  have lt: "unat (hash c k mod capacity hm) < length (buckets hm)"
    using idx_less [OF cap] len by simp
  show ?thesis
    using cap lt
    by (simp add: get_hashmap_def key_bucket_def get_scan_find Let_def
             split: option.splits)
qed

lemma add_hashmap_normal:
  assumes "valid (fst (grow_if_needed rs hm))"
  shows "add_hashmap rs c hm k v =
     (let hm1 = fst (grow_if_needed rs hm);
          b = unat (hash c k mod capacity hm1)
      in Some (hm1\<lparr>buckets := (buckets hm1)[b := Some (bucket_entries (buckets hm1 ! b) @
                                  [Entry (copy_key c k) (copy_value c v)])],
                   size_hm := size_hm hm1 + 1\<rparr>,
               snd (grow_if_needed rs hm) @
               (case buckets hm1 ! b of None \<Rightarrow> [Call_new_vector b] | Some _ \<Rightarrow> []) @
               [Call_copy_key k, Call_copy_value v, Call_push b]))"
proof -
  obtain hm1 t1 where g: "grow_if_needed rs hm = (hm1, t1)"
    by (cases "grow_if_needed rs hm")
  with assms have cap: "capacity hm1 \<noteq> 0" and len: "length (buckets hm1) = unat (capacity hm1)"
    by (simp_all add: valid_def)
  have lt: "unat (hash c k mod capacity hm1) < length (buckets hm1)"
    using idx_less [OF cap] len by simp
  show ?thesis
    using cap lt g
    by (simp add: add_hashmap_def ensure_bucket_def new_vector_def push_def Let_def
             split: option.splits)
qed

subsection \<open>The model of the growth rehash\<close>

lemma valid_new_hashmap_cap: "cap \<noteq> 0 \<Longrightarrow> valid (new_hashmap_cap cap esz)"
  by (simp add: valid_def new_hashmap_cap_def)

lemma length_rehash_place [simp]: "length (rehash_place c n bs e) = length bs"
  by (simp add: rehash_place_def Let_def)

lemma length_foldl_rehash [simp]: "length (foldl (rehash_place c n) bs es) = length bs"
  by (induction es arbitrary: bs) simp_all

lemma rehash_place_bucket:
  "j < length bs \<Longrightarrow>
   bucket_entries (rehash_place c n bs e ! j) =
     bucket_entries (bs ! j) @ (if unat (hash c (entry_key e) mod n) = j then [e] else [])"
  by (auto simp add: rehash_place_def Let_def push_def nth_list_update)

lemma foldl_rehash_bucket:
  "j < length bs \<Longrightarrow>
   bucket_entries (foldl (rehash_place c n) bs es ! j) =
     bucket_entries (bs ! j) @ filter (\<lambda>e. unat (hash c (entry_key e) mod n) = j) es"
  by (induction es arbitrary: bs) (simp_all add: rehash_place_bucket)

lemma resize_fields [simp]:
  "capacity (hashmap_resize c grow hm) = grow (capacity hm)"
  "size_hm (hashmap_resize c grow hm) = size_hm hm"
  "entry_size (hashmap_resize c grow hm) = entry_size hm"
  "length (buckets (hashmap_resize c grow hm)) = unat (grow (capacity hm))"
  by (simp_all add: hashmap_resize_def Let_def)

lemma resize_bucket:
  "j < unat (grow (capacity hm)) \<Longrightarrow>
   bucket_entries (buckets (hashmap_resize c grow hm) ! j) =
     filter (\<lambda>e. unat (hash c (entry_key e) mod grow (capacity hm)) = j) (all_entries hm)"
  by (simp add: hashmap_resize_def Let_def foldl_rehash_bucket)

lemma valid_resize: "grow (capacity hm) \<noteq> 0 \<Longrightarrow> valid (hashmap_resize c grow hm)"
  by (simp add: valid_def)

lemma entry_count_length: "entry_count hm = length (all_entries hm)"
proof -
  have h: "(\<lambda>b. case b of None \<Rightarrow> 0 | Some v \<Rightarrow> vector_size v) = (\<lambda>b. length (bucket_entries b))"
    by (auto simp add: fun_eq_iff vector_size_def split: option.splits)
  show ?thesis
    unfolding entry_count_def all_entries_def h
    by (simp add: length_concat comp_def)
qed

lemma count_rehash_place:
  assumes "unat (hash c (entry_key e) mod n) < length bs"
  shows "length (concat (map bucket_entries (rehash_place c n bs e))) =
         Suc (length (concat (map bucket_entries bs)))"
proof -
  let ?b = "unat (hash c (entry_key e) mod n)"
  let ?ls = "map (\<lambda>b. length (bucket_entries b)) bs"
  have "map (\<lambda>b. length (bucket_entries b)) (rehash_place c n bs e) = ?ls[?b := Suc (?ls ! ?b)]"
    using assms by (simp add: rehash_place_def Let_def push_def map_update)
  moreover have "sum_list (?ls[?b := Suc (?ls ! ?b)]) = Suc (sum_list ?ls)"
    using assms by (simp add: sum_list_update)
  ultimately show ?thesis
    by (simp add: length_concat comp_def)
qed

lemma count_foldl_rehash:
  assumes "\<forall>e \<in> set es. unat (hash c (entry_key e) mod n) < length bs"
  shows "length (concat (map bucket_entries (foldl (rehash_place c n) bs es))) =
         length (concat (map bucket_entries bs)) + length es"
  using assms
proof (induction es arbitrary: bs)
  case Nil
  then show ?case by simp
next
  case (Cons e es)
  then show ?case
    by (simp add: count_rehash_place)
qed

lemma entry_count_resize:
  assumes "grow (capacity hm) \<noteq> 0"
  shows "entry_count (hashmap_resize c grow hm) = entry_count hm"
proof -
  let ?n = "grow (capacity hm)"
  have "\<forall>e \<in> set (all_entries hm).
          unat (hash c (entry_key e) mod ?n) < length (replicate (unat ?n) (None :: ('a, 'b) entry vector option))"
    using idx_less [OF assms] by simp
  from count_foldl_rehash [OF this] show ?thesis
    by (simp add: entry_count_length all_entries_def hashmap_resize_def Let_def)
qed

lemma placed_iff:
  "placed c hm \<longleftrightarrow>
     (\<forall>i < length (buckets hm). \<forall>e \<in> set (bucket_entries (buckets hm ! i)).
        unat (hash c (entry_key e) mod capacity hm) = i)"
  by (auto simp add: placed_def)

lemma placed_resize: "placed c (hashmap_resize c grow hm)"
  by (simp add: placed_iff resize_bucket)

lemma placed_new_hashmap_cap: "placed c (new_hashmap_cap cap esz)"
  by (simp add: placed_iff new_hashmap_cap_def)

lemma set_all_entries:
  "set (all_entries hm) = (\<Union>i < length (buckets hm). set (bucket_entries (buckets hm ! i)))"
proof -
  have "set (all_entries hm) = (\<Union>b \<in> set (buckets hm). set (bucket_entries b))"
    by (simp add: all_entries_def)
  also have "\<dots> = (\<Union>i < length (buckets hm). set (bucket_entries (buckets hm ! i)))"
    by (fastforce simp add: set_conv_nth)
  finally show ?thesis .
qed

lemma filter_concat_single:
  "j < length xss \<Longrightarrow> \<forall>i < length xss. i \<noteq> j \<longrightarrow> filter P (xss ! i) = [] \<Longrightarrow>
   filter P (concat xss) = filter P (xss ! j)"
proof (induction xss arbitrary: j)
  case Nil
  then show ?case by simp
next
  case (Cons xs xss)
  show ?case
  proof (cases j)
    case 0
    have "\<forall>ys \<in> set xss. filter P ys = []"
    proof
      fix ys assume "ys \<in> set xss"
      then obtain i where "i < length xss" "xss ! i = ys" by (auto simp add: in_set_conv_nth)
      with Cons.prems(2) [rule_format, of "Suc i"] 0 show "filter P ys = []" by simp
    qed
    then have "filter P (concat xss) = []"
      by (simp add: filter_concat)
    with 0 show ?thesis by simp
  next
    case (Suc j')
    from Cons.prems(2) [rule_format, of 0] Suc have h: "filter P xs = []" by simp
    have "filter P (concat xss) = filter P (xss ! j')"
    proof (rule Cons.IH)
      show "j' < length xss" using Cons.prems(1) Suc by simp
      show "\<forall>i<length xss. i \<noteq> j' \<longrightarrow> filter P (xss ! i) = []"
        using Cons.prems(2) [rule_format, of "Suc i" for i] Suc by auto
    qed
    with h Suc show ?thesis by simp
  qed
qed

lemma find_filter_hd:
  "List.find P xs = (case filter P xs of [] \<Rightarrow> None | x # _ \<Rightarrow> Some x)"
  by (induction xs) auto

lemma grow_if_needed_fst:
  "fst (grow_if_needed rs hm) = (if load_exceeded hm then rs hm else hm)"
  by (simp add: grow_if_needed_def)

lemma grow_if_needed_snd:
  "snd (grow_if_needed rs hm) = (if load_exceeded hm then [Call_hashmap_resize] else [])"
  by (simp add: grow_if_needed_def)

lemma matches_resize:
  assumes v: "valid hm" and g: "grow (capacity hm) \<noteq> 0" and p: "placed c hm"
    and eh: "\<forall>k'. equals c k k' \<longrightarrow> hash c k' = hash c k"
  shows "filter (\<lambda>e. equals c k (entry_key e)) (key_bucket c (hashmap_resize c grow hm) k) =
         filter (\<lambda>e. equals c k (entry_key e)) (key_bucket c hm k)"
proof -
  let ?Q = "\<lambda>e. equals c k (entry_key e)"
  let ?n = "grow (capacity hm)"
  let ?j = "unat (hash c k mod capacity hm)"
  from v have cap: "capacity hm \<noteq> 0" and len: "length (buckets hm) = unat (capacity hm)"
    by (simp_all add: valid_def)
  have j: "?j < length (buckets hm)"
    using idx_less [OF cap] len by simp
  have "key_bucket c (hashmap_resize c grow hm) k =
          filter (\<lambda>e. unat (hash c (entry_key e) mod ?n) = unat (hash c k mod ?n)) (all_entries hm)"
    using idx_less [OF g] by (simp add: key_bucket_def resize_bucket)
  then have "filter ?Q (key_bucket c (hashmap_resize c grow hm) k) =
          filter (\<lambda>e. unat (hash c (entry_key e) mod ?n) = unat (hash c k mod ?n) \<and> ?Q e)
            (all_entries hm)"
    by simp
  also have "\<dots> = filter ?Q (all_entries hm)"
    using eh by (intro filter_cong) auto
  also have "\<dots> = filter ?Q (concat (map bucket_entries (buckets hm)))"
    by (simp add: all_entries_def)
  also have "\<dots> = filter ?Q (map bucket_entries (buckets hm) ! ?j)"
  proof (rule filter_concat_single)
    show "?j < length (map bucket_entries (buckets hm))" using j by simp
    show "\<forall>i<length (map bucket_entries (buckets hm)). i \<noteq> ?j \<longrightarrow>
            filter ?Q (map bucket_entries (buckets hm) ! i) = []"
    proof (intro allI impI)
      fix i assume i: "i < length (map bucket_entries (buckets hm))" and ne: "i \<noteq> ?j"
      have "\<forall>e \<in> set (bucket_entries (buckets hm ! i)). \<not> ?Q e"
      proof
        fix e assume e: "e \<in> set (bucket_entries (buckets hm ! i))"
        with p i have "unat (hash c (entry_key e) mod capacity hm) = i"
          by (simp add: placed_iff)
        with ne have "hash c (entry_key e) \<noteq> hash c k" by auto
        with eh show "\<not> ?Q e" by auto
      qed
      with i show "filter ?Q (map bucket_entries (buckets hm) ! i) = []"
        by (simp add: filter_empty_conv)
    qed
  qed
  also have "\<dots> = filter ?Q (key_bucket c hm k)"
    using j by (simp add: key_bucket_def)
  finally show ?thesis .
qed

subsection \<open>The effect of add on a table that is valid after the growth step\<close>

lemma add_hashmap_fields:
  assumes "valid (fst (grow_if_needed rs hm))" and "add_hashmap rs c hm k v = Some (hm', t)"
  shows "capacity hm' = capacity (fst (grow_if_needed rs hm))"
    and "size_hm hm' = size_hm (fst (grow_if_needed rs hm)) + 1"
    and "entry_size hm' = entry_size (fst (grow_if_needed rs hm))"
    and "length (buckets hm') = length (buckets (fst (grow_if_needed rs hm)))"
    and "valid hm'"
  using assms by (auto simp add: add_hashmap_normal Let_def valid_def)

lemma add_hashmap_bucket:
  assumes "valid (fst (grow_if_needed rs hm))" and "add_hashmap rs c hm k v = Some (hm', t)"
    and "j < length (buckets hm')"
  shows "bucket_entries (buckets hm' ! j) =
           bucket_entries (buckets (fst (grow_if_needed rs hm)) ! j) @
           (if j = unat (hash c k mod capacity hm') then [Entry (copy_key c k) (copy_value c v)]
            else [])"
  using assms by (auto simp add: add_hashmap_normal Let_def nth_list_update)

lemma add_hashmap_key_bucket:
  assumes v: "valid (fst (grow_if_needed rs hm))" and a: "add_hashmap rs c hm k v = Some (hm', t)"
  shows "key_bucket c hm' k' =
           key_bucket c (fst (grow_if_needed rs hm)) k' @
           (if unat (hash c k' mod capacity hm') = unat (hash c k mod capacity hm')
            then [Entry (copy_key c k) (copy_value c v)] else [])"
proof -
  from add_hashmap_fields [OF v a] have cap: "capacity hm' \<noteq> 0"
    and len: "length (buckets hm') = unat (capacity hm')"
    and ceq: "capacity hm' = capacity (fst (grow_if_needed rs hm))"
    by (simp_all add: valid_def)
  have "unat (hash c k' mod capacity hm') < length (buckets hm')"
    using idx_less [OF cap] len by simp
  from add_hashmap_bucket [OF v a this] show ?thesis
    by (simp add: key_bucket_def ceq)
qed

lemma add_hashmap_trace:
  assumes "valid (fst (grow_if_needed rs hm))" and "add_hashmap rs c hm k v = Some (hm', t)"
  shows "t = (if load_exceeded hm then [Call_hashmap_resize] else []) @
             (case buckets (fst (grow_if_needed rs hm)) !
                     unat (hash c k mod capacity (fst (grow_if_needed rs hm))) of
                None \<Rightarrow> [Call_new_vector (unat (hash c k mod capacity (fst (grow_if_needed rs hm))))]
              | Some _ \<Rightarrow> []) @
             [Call_copy_key k, Call_copy_value v,
              Call_push (unat (hash c k mod capacity (fst (grow_if_needed rs hm))))]"
  using assms by (auto simp add: add_hashmap_normal Let_def grow_if_needed_snd)

lemma add_hashmap_Some:
  assumes "valid (fst (grow_if_needed rs hm))"
  shows "\<exists>hm' t. add_hashmap rs c hm k v = Some (hm', t)"
  using assms by (simp add: add_hashmap_normal Let_def)

lemma add_hashmap_count:
  assumes v: "valid (fst (grow_if_needed rs hm))" and a: "add_hashmap rs c hm k v = Some (hm', t)"
  shows "entry_count hm' = Suc (entry_count (fst (grow_if_needed rs hm)))"
proof -
  let ?hm1 = "fst (grow_if_needed rs hm)"
  let ?b = "unat (hash c k mod capacity ?hm1)"
  let ?ls = "map (\<lambda>b. length (bucket_entries b)) (buckets ?hm1)"
  from v have cap: "capacity ?hm1 \<noteq> 0" and len: "length (buckets ?hm1) = unat (capacity ?hm1)"
    by (simp_all add: valid_def)
  have lt: "?b < length (buckets ?hm1)"
    using idx_less [OF cap] len by simp
  have "map (\<lambda>b. length (bucket_entries b)) (buckets hm') = ?ls[?b := Suc (?ls ! ?b)]"
    using v a lt by (auto simp add: add_hashmap_normal Let_def map_update)
  moreover have "sum_list (?ls[?b := Suc (?ls ! ?b)]) = Suc (sum_list ?ls)"
    using lt by (simp add: sum_list_update)
  ultimately show ?thesis
    by (simp add: entry_count_length all_entries_def length_concat comp_def)
qed

lemma add_hashmap_placed:
  assumes v: "valid (fst (grow_if_needed rs hm))" and a: "add_hashmap rs c hm k v = Some (hm', t)"
    and p: "placed c (fst (grow_if_needed rs hm))"
    and ck: "hash c (copy_key c k) = hash c k"
  shows "placed c hm'"
  unfolding placed_iff
proof (intro allI impI ballI)
  fix i e assume i: "i < length (buckets hm')" and e: "e \<in> set (bucket_entries (buckets hm' ! i))"
  note f = add_hashmap_fields [OF v a]
  from add_hashmap_bucket [OF v a i] e
  have "e \<in> set (bucket_entries (buckets (fst (grow_if_needed rs hm)) ! i)) \<or>
        (i = unat (hash c k mod capacity hm') \<and> e = Entry (copy_key c k) (copy_value c v))"
    by (auto split: if_splits)
  then show "unat (hash c (entry_key e) mod capacity hm') = i"
  proof
    assume "e \<in> set (bucket_entries (buckets (fst (grow_if_needed rs hm)) ! i))"
    with p i f(1,4) show ?thesis by (simp add: placed_iff)
  next
    assume "i = unat (hash c k mod capacity hm') \<and> e = Entry (copy_key c k) (copy_value c v)"
    with ck show ?thesis by simp
  qed
qed

lemma add_hashmap_first_match:
  assumes v: "valid (fst (grow_if_needed rs hm))" and a: "add_hashmap rs c hm k v = Some (hm', t)"
  shows "first_match c hm' k' =
           (case first_match c (fst (grow_if_needed rs hm)) k' of
              Some e \<Rightarrow> Some e
            | None \<Rightarrow>
                if unat (hash c k' mod capacity hm') = unat (hash c k mod capacity hm') \<and>
                   equals c k' (copy_key c k)
                then Some (Entry (copy_key c k) (copy_value c v)) else None)"
  using add_hashmap_key_bucket [OF v a, of k']
  by (simp add: first_match_def find_append_first split: option.splits)

lemma get_hashmap_first_match:
  "valid hm \<Longrightarrow>
   get_hashmap c hm k out =
     Some (case first_match c hm k of
             None \<Rightarrow> (False, out, hm) | Some e \<Rightarrow> (True, entry_value e, hm))"
  by (simp add: get_hashmap_find first_match_def)

lemma get_hashmap_same_table:
  "valid hm \<Longrightarrow> \<exists>found out'. get_hashmap c hm k out = Some (found, out', hm)"
  by (cases "first_match c hm k") (auto simp add: get_hashmap_first_match)

subsection \<open>The model of the growth rehash keeps the promises\<close>

lemma hashmap_resize_keeps_valid:
  "keeps_positive grow \<Longrightarrow> resize_keeps_valid (hashmap_resize c grow)"
  by (simp add: resize_keeps_valid_def keeps_positive_def valid_resize valid_def)

lemma hashmap_resize_keeps_size: "resize_keeps_size (hashmap_resize c grow)"
  by (simp add: resize_keeps_size_def)

lemma hashmap_resize_keeps_count:
  "keeps_positive grow \<Longrightarrow> resize_keeps_count (hashmap_resize c grow)"
  by (simp add: resize_keeps_count_def keeps_positive_def entry_count_resize valid_def)

lemma hashmap_resize_rehashes: "resize_rehashes c (hashmap_resize c grow)"
  by (simp add: resize_rehashes_def placed_resize)

lemma hashmap_resize_keeps_first_match:
  assumes "keeps_positive grow" and "\<forall>k'. equals c k k' \<longrightarrow> hash c k' = hash c k"
  shows "resize_keeps_first_match c (hashmap_resize c grow) k"
  unfolding resize_keeps_first_match_def
proof (intro allI impI)
  fix hm :: "('a, 'b) hashmap"
  assume h: "valid hm \<and> placed c hm"
  with assms(1) have g: "grow (capacity hm) \<noteq> 0"
    by (simp add: keeps_positive_def valid_def)
  with matches_resize [of hm grow c k] h assms(2)
  show "first_match c (hashmap_resize c grow hm) k = first_match c hm k"
    by (simp add: first_match_def find_filter_hd)
qed

lemma keeps_positive_grow_odd: "keeps_positive grow_odd"
proof -
  have "2 * cap + 1 \<noteq> 0" for cap :: "32 word"
  proof
    assume "2 * cap + 1 = 0"
    then have "even (2 * cap + 1)" by simp
    then show False by simp
  qed
  then show ?thesis by (simp add: keeps_positive_def grow_odd_def)
qed

lemma int_hash_own_address: "int_hash (mem(a := key)) a = key"
  by (simp add: int_hash_def)

lemma int_to_int_simps [simp]:
  "hash (int_to_int mem) k = k" "equals (int_to_int mem) a b = (mem a = mem b)"
  "copy_key (int_to_int mem) k = mem k" "copy_value (int_to_int mem) v = mem v"
  by (simp_all add: int_to_int_def int_equals_def copy_int_def)

subsection \<open>Steps of add, for a resize function that keeps validity\<close>

lemma grow_valid:
  "resize_keeps_valid rs \<Longrightarrow> valid hm \<Longrightarrow> valid (fst (grow_if_needed rs hm))"
  by (simp add: grow_if_needed_fst resize_keeps_valid_def)

lemma add_step:
  assumes "resize_keeps_valid rs" "valid hm"
  obtains hm' t where "add_hashmap rs c hm k v = Some (hm', t)" "valid hm'"
proof -
  from grow_valid [OF assms] have v: "valid (fst (grow_if_needed rs hm))" .
  from add_hashmap_Some [OF v] obtain hm' t where a: "add_hashmap rs c hm k v = Some (hm', t)"
    by blast
  from add_hashmap_fields(5) [OF v a] a that show ?thesis by blast
qed

lemma add_step_size:
  assumes "resize_keeps_valid rs" "resize_keeps_size rs" "valid hm"
    "add_hashmap rs c hm k v = Some (hm', t)"
  shows "size_hm hm' = size_hm hm + 1"
  using add_hashmap_fields(2) [OF grow_valid [OF assms(1,3)] assms(4)] assms(2,3)
  by (simp add: grow_if_needed_fst resize_keeps_size_def)

lemma add_step_count:
  assumes "resize_keeps_valid rs" "resize_keeps_count rs" "valid hm"
    "add_hashmap rs c hm k v = Some (hm', t)"
  shows "entry_count hm' = Suc (entry_count hm)"
  using add_hashmap_count [OF grow_valid [OF assms(1,3)] assms(4)] assms(2,3)
  by (simp add: grow_if_needed_fst resize_keeps_count_def)

lemma add_step_placed:
  assumes "resize_keeps_valid rs" "resize_rehashes c rs" "valid hm" "placed c hm"
    "hash c (copy_key c k) = hash c k" "add_hashmap rs c hm k v = Some (hm', t)"
  shows "placed c hm'"
proof -
  have "placed c (fst (grow_if_needed rs hm))"
    using assms(2,3,4) by (simp add: grow_if_needed_fst resize_rehashes_def)
  from add_hashmap_placed [OF grow_valid [OF assms(1,3)] assms(6) this assms(5)]
  show ?thesis .
qed

lemma add_step_first_match:
  assumes "resize_keeps_valid rs" "resize_keeps_first_match c rs k'" "valid hm" "placed c hm"
    "add_hashmap rs c hm k v = Some (hm', t)"
  shows "first_match c hm' k' =
           (case first_match c hm k' of
              Some e \<Rightarrow> Some e
            | None \<Rightarrow>
                if unat (hash c k' mod capacity hm') = unat (hash c k mod capacity hm') \<and>
                   equals c k' (copy_key c k)
                then Some (Entry (copy_key c k) (copy_value c v)) else None)"
proof -
  have "first_match c (fst (grow_if_needed rs hm)) k' = first_match c hm k'"
    using assms(2,3,4) by (simp add: grow_if_needed_fst resize_keeps_first_match_def)
  with add_hashmap_key_bucket [OF grow_valid [OF assms(1,3)] assms(5), of k']
  show ?thesis
    by (simp add: first_match_def find_append_first split: option.splits)
qed

subsection \<open>Sequences of operations\<close>

lemma added_keys_simps [simp]:
  "added_keys [] = []"
  "added_keys (Op_add k v # ops) = k # added_keys ops"
  "added_keys (Op_get k out # ops) = added_keys ops"
  "added_keys (xs @ ys) = added_keys xs @ added_keys ys"
  by (simp_all add: added_keys_def)

lemma added_keys_map_add [simp]: "added_keys (map (\<lambda>(k, v). Op_add k v) kvs) = map fst kvs"
  by (induction kvs) auto

lemma run_get_step:
  "valid hm \<Longrightarrow> run rs c (Op_get k out # ops) hm = run rs c ops hm"
  using get_hashmap_same_table [of hm c k out] by auto

lemma run_append:
  "run rs c (xs @ ys) hm = (case run rs c xs hm of None \<Rightarrow> None | Some hm' \<Rightarrow> run rs c ys hm')"
proof (induction xs arbitrary: hm)
  case Nil
  then show ?case by simp
next
  case (Cons x xs)
  then show ?case
    by (cases x) (simp_all split: option.splits)
qed

lemma run_invariant:
  assumes kv: "resize_keeps_valid rs" and v: "valid hm" and P: "P hm"
    and step: "\<And>hm k v hm' t. k \<in> set (added_keys ops) \<Longrightarrow> valid hm \<Longrightarrow> P hm \<Longrightarrow>
                 add_hashmap rs c hm k v = Some (hm', t) \<Longrightarrow> P hm'"
  shows "\<exists>hm'. run rs c ops hm = Some hm' \<and> valid hm' \<and> P hm'"
  using v P step
proof (induction ops arbitrary: hm)
  case Nil
  then show ?case by simp
next
  case (Cons x ops)
  show ?case
  proof (cases x)
    case (Op_add k v)
    from add_step [OF kv Cons.prems(1), of c k v] obtain hm1 t
      where a: "add_hashmap rs c hm k v = Some (hm1, t)" and v1: "valid hm1" by blast
    have P1: "P hm1"
      using Cons.prems(3) [OF _ Cons.prems(1,2) a] Op_add by simp
    have "\<exists>hm'. run rs c ops hm1 = Some hm' \<and> valid hm' \<and> P hm'"
    proof (rule Cons.IH [OF v1 P1])
      fix hm k' v' hm' t'
      assume "k' \<in> set (added_keys ops)" "valid hm" "P hm"
        "add_hashmap rs c hm k' v' = Some (hm', t')"
      then show "P hm'"
        using Cons.prems(3) [of k' hm v' hm' t'] Op_add by simp
    qed
    with a Op_add show ?thesis by simp
  next
    case (Op_get k out)
    have "\<exists>hm'. run rs c ops hm = Some hm' \<and> valid hm' \<and> P hm'"
    proof (rule Cons.IH [OF Cons.prems(1,2)])
      fix hm k' v' hm' t'
      assume "k' \<in> set (added_keys ops)" "valid hm" "P hm"
        "add_hashmap rs c hm k' v' = Some (hm', t')"
      then show "P hm'"
        using Cons.prems(3) [of k' hm v' hm' t'] Op_get by simp
    qed
    with Op_get Cons.prems(1) show ?thesis by (simp add: run_get_step del: run.simps)
  qed
qed

lemma run_size:
  assumes kv: "resize_keeps_valid rs" and ks: "resize_keeps_size rs"
  shows "valid hm \<Longrightarrow> run rs c ops hm = Some hm' \<Longrightarrow>
         size_hm hm' = size_hm hm + of_nat (length (added_keys ops))"
proof (induction ops arbitrary: hm)
  case Nil
  then show ?case by simp
next
  case (Cons x ops)
  show ?case
  proof (cases x)
    case (Op_add k v)
    from add_step [OF kv Cons.prems(1), of c k v] obtain hm1 t
      where a: "add_hashmap rs c hm k v = Some (hm1, t)" and v1: "valid hm1" by blast
    from Cons.prems(2) a Op_add have "run rs c ops hm1 = Some hm'" by simp
    from Cons.IH [OF v1 this] add_step_size [OF kv ks Cons.prems(1) a] Op_add
    show ?thesis by simp
  next
    case (Op_get k out)
    with Cons.prems have "run rs c ops hm = Some hm'" by (simp add: run_get_step del: run.simps)
    from Cons.IH [OF Cons.prems(1) this] Op_get show ?thesis by simp
  qed
qed

lemma new_hashmap_cap_fields [simp]:
  "size_hm (new_hashmap_cap cap esz) = 0"
  "capacity (new_hashmap_cap cap esz) = cap"
  "entry_size (new_hashmap_cap cap esz) = esz"
  "buckets (new_hashmap_cap cap esz) = replicate (unat cap) None"
  by (simp_all add: new_hashmap_cap_def)

lemma entry_count_new [simp]: "entry_count (new_hashmap_cap cap esz) = 0"
  by (simp add: entry_count_def)

lemma all_entries_new [simp]: "all_entries (new_hashmap_cap cap esz) = []"
  by (simp add: all_entries_def)

lemma key_bucket_subset:
  "valid hm \<Longrightarrow> set (key_bucket c hm k) \<subseteq> set (all_entries hm)"
proof -
  assume v: "valid hm"
  then have "unat (hash c k mod capacity hm) < length (buckets hm)"
    using idx_less [of "capacity hm" "hash c k"] by (simp add: valid_def)
  then show ?thesis
    by (auto simp add: key_bucket_def set_all_entries)
qed

lemma key_bucket_new [simp]: "cap \<noteq> 0 \<Longrightarrow> key_bucket c (new_hashmap_cap cap esz) k = []"
  using key_bucket_subset [OF valid_new_hashmap_cap, of cap c esz k] by simp

subsection \<open>The instance for int keys and int values, and the scenario tables\<close>

lemma int_resize_keeps_valid: "resize_keeps_valid (hashmap_resize (int_to_int mem) grow_odd)"
  by (rule hashmap_resize_keeps_valid [OF keeps_positive_grow_odd])

lemma demo_memory_cells [simp]:
  "demo_memory 65536 = 7" "demo_memory 65540 = 99" "demo_memory 65544 = 98"
  "demo_memory 7 = 5" "demo_memory 131 = 5"
  "demo_memory 131073 = 131073" "demo_memory 131078 = 131078" "demo_memory 131083 = 131083"
  "demo_memory 131088 = 131088" "demo_memory 131093 = 131093"
  "demo_memory 196608 = 10" "demo_memory 196612 = 20" "demo_memory 196616 = 30"
  "demo_memory 196620 = 40" "demo_memory 196624 = 50"
  by (simp_all add: demo_memory_def)

lemma demo_memory_131073_only: "demo_memory a = 131073 \<longleftrightarrow> a = 131073"
  by (simp add: demo_memory_def)

lemma scenario_B_run:
  "run (hashmap_resize (int_to_int demo_memory) grow_odd) (int_to_int demo_memory)
     [Op_add 131073 196608, Op_add 131078 196612, Op_add 131083 196616]
     (new_hashmap_cap 4 8) = Some scenario_B_table"
  by code_simp

lemma scenario_B_full_run:
  "run (hashmap_resize (int_to_int demo_memory) grow_odd) (int_to_int demo_memory)
     [Op_add 131073 196608, Op_get 131073 0, Op_add 131078 196612, Op_add 131083 196616,
      Op_get 7 0, Op_add 131088 196620]
     (new_hashmap_cap 4 8) = Some scenario_B_full_table"
  by code_simp

lemma valid_scenario_B_table: "valid scenario_B_table"
  by (simp add: valid_def scenario_B_table_def)


section \<open>The claims\<close>

subsection \<open>C1\<close>

text \<open>
  Claim C1 (the code does not do this). After \<^verbatim>\<open>delete(table)\<close> the key-destroy and
  value-destroy functions should have been called exactly once on every key and value that
  \<^verbatim>\<open>add\<close> copied into the table, by the table's \<^verbatim>\<open>delete\<close>. In the code,
  \<^verbatim>\<open>delete_K_to_V_hashmap\<close> calls the vector's \<^verbatim>\<open>delete\<close> for each present bucket and then
  \<^verbatim>\<open>kfree\<close> twice; \<^verbatim>\<open>delete_K_to_V_entry\<close>, which calls the two destroy functions, is
  defined and never called. On a new table, \<^verbatim>\<open>add(65536, 65540)\<close> calls the copy function
  for the key and for the value, and the following \<^verbatim>\<open>delete\<close> calls no destroy function.
\<close>

theorem delete_calls_no_entry_destroy:
  "map_option snd
     (add_hashmap (hashmap_resize (int_to_int demo_memory) grow_odd) (int_to_int demo_memory) (new_hashmap 8) 65536 65540) =
     Some [Call_new_vector 4, Call_copy_key 65536, Call_copy_value 65540, Call_push 4] \<and>
   delete_after (hashmap_resize (int_to_int demo_memory) grow_odd) (int_to_int demo_memory)
     [Op_add 65536 65540] (new_hashmap 8) =
     Some [Call_vector_delete 4, Call_kfree_buckets, Call_kfree_hashmap]"
  by code_simp

subsection \<open>C2\<close>

text \<open>
  Claim C2, as amended. For a table with capacity 4, a call of \<^verbatim>\<open>add\<close> performs a growth
  rehash if and only if the table holds at least 4 entries when the call starts (the test
  is the strict size > 4 * 0.75). So the call of \<^verbatim>\<open>add\<close> that inserts a fourth key into a
  table that holds 3 entries performs no growth rehash: the capacity is still 4, the size
  is 4, the new entry is appended to the bucket of its key, and every key that \<^verbatim>\<open>get\<close>
  found before is found with the same value. Whether \<^verbatim>\<open>get\<close> finds the new key is not
  part of the amended claim.
\<close>

theorem add_capacity_four_grows_iff:
  assumes "valid (if load_exceeded hm then rs hm else hm)" and "capacity hm = 4"
  shows "\<exists>hm' t. add_hashmap rs c hm k v = Some (hm', t) \<and>
           (Call_hashmap_resize \<in> set t \<longleftrightarrow> 4 \<le> unat (size_hm hm)) \<and>
           (size_hm hm = 3 \<longrightarrow>
              capacity hm' = 4 \<and> size_hm hm' = 4 \<and>
              key_bucket c hm' k =
                key_bucket c hm k @ [Entry (copy_key c k) (copy_value c v)] \<and>
              (\<forall>k' v'. get_hashmap c hm k' out = Some (True, v', hm) \<longrightarrow>
                       get_hashmap c hm' k' out = Some (True, v', hm')))"
proof -
  from assms(1) have vg: "valid (fst (grow_if_needed rs hm))" by (simp add: grow_if_needed_fst)
  from add_hashmap_Some [OF vg] obtain hm' t
    where a: "add_hashmap rs c hm k v = Some (hm', t)" by blast
  have le: "load_exceeded hm \<longleftrightarrow> 4 \<le> unat (size_hm hm)"
    using assms(2) by (simp add: load_exceeded_nat) arith
  from add_hashmap_trace [OF vg a] le
  have tr: "Call_hashmap_resize \<in> set t \<longleftrightarrow> 4 \<le> unat (size_hm hm)"
    by (simp split: option.splits)
  have three: "capacity hm' = 4 \<and> size_hm hm' = 4 \<and>
              key_bucket c hm' k =
                key_bucket c hm k @ [Entry (copy_key c k) (copy_value c v)] \<and>
              (\<forall>k' v'. get_hashmap c hm k' out = Some (True, v', hm) \<longrightarrow>
                       get_hashmap c hm' k' out = Some (True, v', hm'))"
    if s: "size_hm hm = 3"
  proof -
    from le s have nl: "\<not> load_exceeded hm" by simp
    then have g: "fst (grow_if_needed rs hm) = hm" by (simp add: grow_if_needed_fst)
    from assms(1) nl have v: "valid hm" by simp
    note f = add_hashmap_fields [OF vg a]
    from f g assms(2) s have cs: "capacity hm' = 4" "size_hm hm' = 4" and v': "valid hm'"
      by simp_all
    from add_hashmap_key_bucket [OF vg a, of k] g
    have kb: "key_bucket c hm' k =
                key_bucket c hm k @ [Entry (copy_key c k) (copy_value c v)]"
      by simp
    note fm = add_hashmap_first_match [OF vg a, unfolded g]
    have old: "\<forall>k' v'. get_hashmap c hm k' out = Some (True, v', hm) \<longrightarrow>
                    get_hashmap c hm' k' out = Some (True, v', hm')"
    proof (intro allI impI)
      fix k' v' assume "get_hashmap c hm k' out = Some (True, v', hm)"
      then obtain e where "first_match c hm k' = Some e" "entry_value e = v'"
        by (auto simp add: get_hashmap_first_match [OF v] split: option.splits)
      with fm [of k'] show "get_hashmap c hm' k' out = Some (True, v', hm')"
        by (simp add: get_hashmap_first_match [OF v'])
    qed
    from cs kb old show ?thesis by blast
  qed
  from a tr three show ?thesis by blast
qed

text \<open>
  Claim C2 as stated fails. In the memory of the examples, three calls of \<^verbatim>\<open>add\<close> on a new
  table of capacity 4 give the table of scenario B, which holds 3 entries; the fourth call
  makes no call of the resize and the capacity stays 4.
\<close>

theorem scenario_B_fourth_add_no_growth:
  "run (hashmap_resize (int_to_int demo_memory) grow_odd) (int_to_int demo_memory)
     [Op_add 131073 196608, Op_add 131078 196612, Op_add 131083 196616]
     (new_hashmap_cap 4 8) = Some scenario_B_table \<and>
   size_hm scenario_B_table = 3 \<and> capacity scenario_B_table = 4 \<and>
   add_hashmap (hashmap_resize (int_to_int demo_memory) grow_odd) (int_to_int demo_memory)
     scenario_B_table 131088 196620 =
     Some (scenario_B_full_table,
           [Call_new_vector 0, Call_copy_key 131088, Call_copy_value 196620, Call_push 0]) \<and>
   capacity scenario_B_full_table = 4"
  by code_simp

theorem add_capacity_four_grows_iff_witness:
  "valid (if load_exceeded scenario_B_table
          then hashmap_resize (int_to_int demo_memory) grow_odd scenario_B_table
          else scenario_B_table) \<and>
   capacity scenario_B_table = 4 \<and> size_hm scenario_B_table = 3 \<and>
   (\<exists>hm' t. add_hashmap (hashmap_resize (int_to_int demo_memory) grow_odd) (int_to_int demo_memory)
               scenario_B_table 131088 196620 = Some (hm', t) \<and>
            Call_hashmap_resize \<notin> set t \<and> capacity hm' = 4 \<and> size_hm hm' = 4 \<and>
            key_bucket (int_to_int demo_memory) hm' 131088 = [Entry 131088 40] \<and>
            get_hashmap (int_to_int demo_memory) hm' 131078 0 = Some (True, 20, hm'))"
proof -
  have nl: "\<not> load_exceeded scenario_B_table"
    by (simp add: load_exceeded_nat scenario_B_table_def)
  with valid_scenario_B_table
  have v: "valid (if load_exceeded scenario_B_table
          then hashmap_resize (int_to_int demo_memory) grow_odd scenario_B_table
          else scenario_B_table)" by simp
  have h: "capacity scenario_B_table = 4" "size_hm scenario_B_table = 3"
    by (simp_all add: scenario_B_table_def)
  have g: "get_hashmap (int_to_int demo_memory) scenario_B_table 131078 0 =
             Some (True, 20, scenario_B_table)"
    by code_simp
  have b: "key_bucket (int_to_int demo_memory) scenario_B_table 131088 = []"
    by code_simp
  from add_capacity_four_grows_iff [where hm = scenario_B_table
      and rs = "hashmap_resize (int_to_int demo_memory) grow_odd" and c = "int_to_int demo_memory"
      and k = 131088 and v = 196620 and out = 0] v h g b
  have "\<exists>hm' t. add_hashmap (hashmap_resize (int_to_int demo_memory) grow_odd) (int_to_int demo_memory)
               scenario_B_table 131088 196620 = Some (hm', t) \<and>
            Call_hashmap_resize \<notin> set t \<and> capacity hm' = 4 \<and> size_hm hm' = 4 \<and>
            key_bucket (int_to_int demo_memory) hm' 131088 = [Entry 131088 40] \<and>
            get_hashmap (int_to_int demo_memory) hm' 131078 0 = Some (True, 20, hm')"
    by auto
  with v h show ?thesis by blast
qed

subsection \<open>C3\<close>

text \<open>
  Claim C3 (the code does not do this). Calling \<^verbatim>\<open>add\<close> twice with the same key should
  store two entries that coexist, and a following \<^verbatim>\<open>get\<close> of the key should return the
  value inserted first. In the generated instance \<^verbatim>\<open>add\<close> passes the key and the value to
  \<^verbatim>\<open>copy_int\<close> as addresses, and \<^verbatim>\<open>get\<close> passes the caller's key and the stored key to
  \<^verbatim>\<open>int_equals\<close> as addresses. With the key 65536 (the \<^verbatim>\<open>int\<close> there is 7, the \<^verbatim>\<open>int\<close>
  at 7 is 5) the two calls of \<^verbatim>\<open>add\<close> store the key 7 twice, the size is 2, and
  \<^verbatim>\<open>get\<close> of the key returns false.
\<close>

theorem same_key_twice_get_misses:
  "map_option (\<lambda>hm. (size_hm hm, key_bucket (int_to_int demo_memory) hm 65536))
     (run (hashmap_resize (int_to_int demo_memory) grow_odd) (int_to_int demo_memory)
        [Op_add 65536 65540, Op_add 65536 65544] (new_hashmap 8)) =
     Some (2, [Entry 7 99, Entry 7 98]) \<and>
   get_after (hashmap_resize (int_to_int demo_memory) grow_odd) (int_to_int demo_memory)
     [Op_add 65536 65540, Op_add 65536 65544] (new_hashmap 8) 65536 0 = Some (False, 0)"
  by code_simp

subsection \<open>C4\<close>



subsection \<open>C5\<close>

text \<open>
  Claim C5, as amended. After \<^verbatim>\<open>add(k, v)\<close>, and any further operations, \<^verbatim>\<open>get(k)\<close>
  returns true and the copy of \<open>v\<close> that was stored, provided that no key whose stored
  copy is equal to \<open>k\<close> was inserted before (an earlier equal key shadows a later one; a
  later one never shadows an earlier one), that \<open>k\<close> is equal to its own stored copy,
  and that the stored copy of every inserted key has the hash of the key. What \<^verbatim>\<open>get\<close>
  returns when the copy of a key differs from the key in hash or under equals is not part
  of the amended claim. The resize function is assumed to keep the promises of the growth
  rehash.
\<close>

theorem get_after_first_add:
  assumes "cap \<noteq> 0" and "resize_keeps_valid rs" and "resize_rehashes c rs"
    and "resize_keeps_first_match c rs k"
    and "\<forall>k' \<in> set (added_keys (pre @ Op_add k v # post)).
           hash c (copy_key c k') = hash c k'"
    and "equals c k (copy_key c k)"
    and "\<forall>k' \<in> set (added_keys pre). \<not> equals c k (copy_key c k')"
  shows "get_after rs c (pre @ Op_add k v # post) (new_hashmap_cap cap esz) k out =
           Some (True, copy_value c v)"
proof -
  let ?e = "Entry (copy_key c k) (copy_value c v)"
  have v0: "valid (new_hashmap_cap cap esz :: ('a, 'b) hashmap)"
    using assms(1) by (rule valid_new_hashmap_cap)
  have "\<exists>hm. run rs c pre (new_hashmap_cap cap esz) = Some hm \<and> valid hm \<and>
              (placed c hm \<and> first_match c hm k = None)"
  proof (rule run_invariant [OF assms(2) v0])
    show "placed c (new_hashmap_cap cap esz) \<and> first_match c (new_hashmap_cap cap esz) k = None"
      using assms(1) by (simp add: placed_new_hashmap_cap first_match_def)
  next
    fix hm :: "('a, 'b) hashmap" and k' v' hm' t
    assume k': "k' \<in> set (added_keys pre)" and vh: "valid hm"
      and P: "placed c hm \<and> first_match c hm k = None"
      and a: "add_hashmap rs c hm k' v' = Some (hm', t)"
    from P have p: "placed c hm" and f: "first_match c hm k = None" by simp_all
    from k' assms(5) have "hash c (copy_key c k') = hash c k'" by simp
    from add_step_placed [OF assms(2,3) vh p this a] have "placed c hm'" .
    moreover from add_step_first_match [OF assms(2,4) vh p a] f k' assms(7)
    have "first_match c hm' k = None" by simp
    ultimately show "placed c hm' \<and> first_match c hm' k = None" by simp
  qed
  then obtain hm1 where r1: "run rs c pre (new_hashmap_cap cap esz) = Some hm1"
    and v1: "valid hm1" and p1: "placed c hm1" and f1: "first_match c hm1 k = None" by blast
  from add_step [OF assms(2) v1, of c k v] obtain hm2 t
    where a2: "add_hashmap rs c hm1 k v = Some (hm2, t)" and v2: "valid hm2" by blast
  from assms(5) have "hash c (copy_key c k) = hash c k" by simp
  from add_step_placed [OF assms(2,3) v1 p1 this a2] have p2: "placed c hm2" .
  from add_step_first_match [OF assms(2,4) v1 p1 a2] f1 assms(6)
  have f2: "first_match c hm2 k = Some ?e" by simp
  have "\<exists>hm. run rs c post hm2 = Some hm \<and> valid hm \<and>
              (placed c hm \<and> first_match c hm k = Some ?e)"
  proof (rule run_invariant [OF assms(2) v2])
    show "placed c hm2 \<and> first_match c hm2 k = Some ?e" using p2 f2 by simp
  next
    fix hm :: "('a, 'b) hashmap" and k' v' hm' t
    assume k': "k' \<in> set (added_keys post)" and vh: "valid hm"
      and P: "placed c hm \<and> first_match c hm k = Some ?e"
      and a: "add_hashmap rs c hm k' v' = Some (hm', t)"
    from P have p: "placed c hm" and f: "first_match c hm k = Some ?e" by simp_all
    from k' assms(5) have "hash c (copy_key c k') = hash c k'" by simp
    from add_step_placed [OF assms(2,3) vh p this a] have "placed c hm'" .
    moreover from add_step_first_match [OF assms(2,4) vh p a] f
    have "first_match c hm' k = Some ?e" by simp
    ultimately show "placed c hm' \<and> first_match c hm' k = Some ?e" by simp
  qed
  then obtain hm3 where r3: "run rs c post hm2 = Some hm3" and v3: "valid hm3"
    and f3: "first_match c hm3 k = Some ?e" by blast
  from r1 a2 r3 have "run rs c (pre @ Op_add k v # post) (new_hashmap_cap cap esz) = Some hm3"
    by (simp add: run_append)
  with v3 f3 show ?thesis
    by (simp add: get_after_def get_hashmap_first_match)
qed

text \<open>
  Claim C5 as stated fails. In the memory of the examples the key 131073 is equal to its
  stored copy. After \<^verbatim>\<open>add(131073, 196608)\<close>, which stores the value 10, and
  \<^verbatim>\<open>add(131073, 196612)\<close>, which stores the value 20, no key was inserted after the second
  call, and \<^verbatim>\<open>get(131073)\<close> returns 10, not 20.
\<close>

theorem later_duplicate_not_returned:
  "copy_value (int_to_int demo_memory) 196612 = 20 \<and>
   get_after (hashmap_resize (int_to_int demo_memory) grow_odd) (int_to_int demo_memory)
     [Op_add 131073 196608, Op_add 131073 196612] (new_hashmap 8) 131073 0 = Some (True, 10) \<and>
   get_after (hashmap_resize (int_to_int demo_memory) grow_odd) (int_to_int demo_memory)
     [Op_add 131073 196608, Op_add 131073 196612] (new_hashmap 8) 131073 0 \<noteq>
     Some (True, copy_value (int_to_int demo_memory) 196612)"
  by code_simp

theorem get_after_first_add_witness:
  "(4 :: 32 word) \<noteq> 0 \<and>
   resize_keeps_valid (hashmap_resize (int_to_int demo_memory) grow_odd) \<and>
   resize_rehashes (int_to_int demo_memory) (hashmap_resize (int_to_int demo_memory) grow_odd) \<and>
   resize_keeps_first_match (int_to_int demo_memory) (hashmap_resize (int_to_int demo_memory) grow_odd) 131073 \<and>
   list_all (\<lambda>k'. hash (int_to_int demo_memory) (copy_key (int_to_int demo_memory) k') = hash (int_to_int demo_memory) k')
     (added_keys ([Op_add 131078 196612] @ Op_add 131073 196608 #
        [Op_add 131073 196616, Op_add 131083 196616, Op_add 131088 196620,
         Op_add 131093 196624 :: (32 word, 32 word) op])) \<and>
   equals (int_to_int demo_memory) 131073 (copy_key (int_to_int demo_memory) 131073) \<and>
   list_all (\<lambda>k'. \<not> equals (int_to_int demo_memory) 131073 (copy_key (int_to_int demo_memory) k'))
     (added_keys [Op_add 131078 196612 :: (32 word, 32 word) op]) \<and>
   get_after (hashmap_resize (int_to_int demo_memory) grow_odd) (int_to_int demo_memory)
     ([Op_add 131078 196612] @ Op_add 131073 196608 #
        [Op_add 131073 196616, Op_add 131083 196616, Op_add 131088 196620,
         Op_add 131093 196624])
     (new_hashmap_cap 4 8) 131073 0 = Some (True, 10)"
proof -
  let ?c = "int_to_int demo_memory"
  let ?rs = "hashmap_resize (int_to_int demo_memory) grow_odd"
  let ?pre = "[Op_add 131078 196612 :: (32 word, 32 word) op]"
  let ?post = "[Op_add 131073 196616, Op_add 131083 196616, Op_add 131088 196620,
         Op_add 131093 196624 :: (32 word, 32 word) op]"
  have h1: "(4 :: 32 word) \<noteq> 0" by simp
  have fm: "resize_keeps_first_match ?c ?rs 131073"
    by (rule hashmap_resize_keeps_first_match [OF keeps_positive_grow_odd])
       (auto simp add: demo_memory_131073_only dest: sym)
  have h5: "\<forall>k' \<in> set (added_keys (?pre @ Op_add 131073 196608 # ?post)).
           hash ?c (copy_key ?c k') = hash ?c k'"
    by simp
  have h6: "equals ?c 131073 (copy_key ?c 131073)" by simp
  have h7: "\<forall>k' \<in> set (added_keys ?pre). \<not> equals ?c 131073 (copy_key ?c k')" by simp
  from get_after_first_add [OF h1 int_resize_keeps_valid hashmap_resize_rehashes fm h5 h6 h7,
      of 8 0]
  have "get_after ?rs ?c (?pre @ Op_add 131073 196608 # ?post) (new_hashmap_cap 4 8) 131073 0 =
          Some (True, 10)"
    by simp
  moreover note h1 int_resize_keeps_valid [of demo_memory]
    hashmap_resize_rehashes [of ?c grow_odd] fm h6
  moreover from h5 have "list_all (\<lambda>k'. hash ?c (copy_key ?c k') = hash ?c k')
     (added_keys (?pre @ Op_add 131073 196608 # ?post))"
    by (simp only: list_all_iff)
  moreover from h7 have "list_all (\<lambda>k'. \<not> equals ?c 131073 (copy_key ?c k'))
     (added_keys ?pre)"
    by (simp only: list_all_iff)
  ultimately show ?thesis
    by (intro conjI)
qed

subsection \<open>C6\<close>

text \<open>
  Claim C6 (the code does not do this). For a key \<open>k\<close> such that no key equal to \<open>k\<close>
  was ever inserted, \<^verbatim>\<open>get(k)\<close> should return false. In the generated instance \<^verbatim>\<open>get\<close>
  passes the caller's key and the stored key to \<^verbatim>\<open>int_equals\<close> as addresses, and the
  stored key is not the inserted key but the \<^verbatim>\<open>int\<close> read at it. After
  \<^verbatim>\<open>add(65536, 65540)\<close> the key 131 is not equal to the one inserted key, it has the
  bucket of that key, and \<^verbatim>\<open>get(131)\<close> returns true with the value 99.
\<close>

theorem get_finds_key_never_added:
  "131 \<noteq> (65536 :: 32 word) \<and> equals (int_to_int demo_memory) 131 65536 = False \<and>
   get_after (hashmap_resize (int_to_int demo_memory) grow_odd) (int_to_int demo_memory)
     [Op_add 65536 65540] (new_hashmap 8) 131 0 = Some (True, 99)"
  by code_simp

subsection \<open>C7\<close>

text \<open>
  Claim C7. After \<open>n\<close> calls of \<^verbatim>\<open>add\<close> on a new table the size field is \<open>n\<close>:
  every call succeeds, the 32-bit field holds \<open>n\<close> as a 32-bit number, and its value is
  \<open>n\<close> itself for every \<open>n\<close> that a \<^verbatim>\<open>uint32_t\<close> can hold. The resize function is
  assumed to keep the table valid and the size unchanged.
\<close>

theorem size_after_adds:
  assumes "cap \<noteq> 0" and "resize_keeps_valid rs" and "resize_keeps_size rs"
  shows "\<exists>hm. run rs c (map (\<lambda>(k, v). Op_add k v) kvs) (new_hashmap_cap cap esz) = Some hm \<and>
              size_hm hm = of_nat (length kvs) \<and>
              (length kvs < 2 ^ 32 \<longrightarrow> unat (size_hm hm) = length kvs)"
proof -
  let ?ops = "map (\<lambda>(k, v). Op_add k v) kvs"
  have v: "valid (new_hashmap_cap cap esz :: ('a, 'b) hashmap)"
    using assms(1) by (rule valid_new_hashmap_cap)
  from run_invariant [OF assms(2) v, of "\<lambda>_. True" ?ops c]
  obtain hm where r: "run rs c ?ops (new_hashmap_cap cap esz) = Some hm" by auto
  from run_size [OF assms(2,3) v r] have s: "size_hm hm = of_nat (length kvs)" by simp
  have "length kvs < 2 ^ 32 \<longrightarrow> unat (size_hm hm) = length kvs"
    by (simp add: s unat_of_nat)
  with r s show ?thesis by blast
qed

theorem size_after_adds_witness:
  "(4 :: 32 word) \<noteq> 0 \<and>
   resize_keeps_valid (hashmap_resize (int_to_int demo_memory) grow_odd) \<and>
   resize_keeps_size (hashmap_resize (int_to_int demo_memory) grow_odd) \<and>
   (\<exists>hm. run (hashmap_resize (int_to_int demo_memory) grow_odd) (int_to_int demo_memory)
            (map (\<lambda>(k, v). Op_add k v)
               [(131073, 196608), (131078, 196612), (131083, 196616), (131088, 196620),
                (131073, 196624)])
            (new_hashmap_cap 4 8) = Some hm \<and>
         unat (size_hm hm) = 5)"
proof -
  have h: "(4 :: 32 word) \<noteq> 0" by simp
  from size_after_adds [OF h int_resize_keeps_valid hashmap_resize_keeps_size,
      of demo_memory "int_to_int demo_memory"
        "[(131073, 196608), (131078, 196612), (131083, 196616), (131088, 196620),
          (131073, 196624)]" 8]
  have "\<exists>hm. run (hashmap_resize (int_to_int demo_memory) grow_odd) (int_to_int demo_memory)
            (map (\<lambda>(k, v). Op_add k v)
               [(131073, 196608), (131078, 196612), (131083, 196616), (131088, 196620),
                (131073, 196624)])
            (new_hashmap_cap 4 8) = Some hm \<and>
         unat (size_hm hm) = 5"
    by (auto simp del: run.simps)
  then show ?thesis
    using int_resize_keeps_valid [of demo_memory]
      hashmap_resize_keeps_size [of "int_to_int demo_memory" grow_odd]
    by simp
qed

subsection \<open>C8\<close>

text \<open>
  Claim C8. After any sequence of \<^verbatim>\<open>add\<close> and \<^verbatim>\<open>get\<close> calls on a new table, the
  size field equals the sum of the entry counts of the present buckets: as 32-bit
  numbers always, and as numbers whenever the sum fits a \<^verbatim>\<open>uint32_t\<close>. The resize
  function is assumed to keep the table valid, the size and the number of entries.
\<close>

theorem size_is_entry_count:
  assumes "cap \<noteq> 0" and "resize_keeps_valid rs" and "resize_keeps_size rs"
    and "resize_keeps_count rs"
  shows "\<exists>hm. run rs c ops (new_hashmap_cap cap esz) = Some hm \<and>
              size_hm hm = of_nat (entry_count hm) \<and>
              (entry_count hm < 2 ^ 32 \<longrightarrow> unat (size_hm hm) = entry_count hm)"
proof -
  have v: "valid (new_hashmap_cap cap esz :: ('a, 'b) hashmap)"
    using assms(1) by (rule valid_new_hashmap_cap)
  have "\<exists>hm. run rs c ops (new_hashmap_cap cap esz) = Some hm \<and> valid hm \<and>
              size_hm hm = of_nat (entry_count hm)"
  proof (rule run_invariant [OF assms(2) v])
    show "size_hm (new_hashmap_cap cap esz :: ('a, 'b) hashmap) =
            of_nat (entry_count (new_hashmap_cap cap esz :: ('a, 'b) hashmap))"
      by simp
  next
    fix hm :: "('a, 'b) hashmap" and k v hm' t
    assume "valid hm" "size_hm hm = of_nat (entry_count hm)"
      "add_hashmap rs c hm k v = Some (hm', t)"
    with add_step_size [OF assms(2,3), of hm c k v hm' t]
      add_step_count [OF assms(2,4), of hm c k v hm' t]
    show "size_hm hm' = of_nat (entry_count hm')" by simp
  qed
  then obtain hm where r: "run rs c ops (new_hashmap_cap cap esz) = Some hm"
    and s: "size_hm hm = of_nat (entry_count hm)" by blast
  have "entry_count hm < 2 ^ 32 \<longrightarrow> unat (size_hm hm) = entry_count hm"
    by (simp add: s unat_of_nat)
  with r s show ?thesis by blast
qed

theorem size_is_entry_count_witness:
  "(4 :: 32 word) \<noteq> 0 \<and>
   resize_keeps_valid (hashmap_resize (int_to_int demo_memory) grow_odd) \<and>
   resize_keeps_size (hashmap_resize (int_to_int demo_memory) grow_odd) \<and>
   resize_keeps_count (hashmap_resize (int_to_int demo_memory) grow_odd) \<and>
   run (hashmap_resize (int_to_int demo_memory) grow_odd) (int_to_int demo_memory)
     [Op_add 131073 196608, Op_get 131073 0, Op_add 131078 196612, Op_add 131083 196616,
      Op_get 7 0, Op_add 131088 196620]
     (new_hashmap_cap 4 8) = Some scenario_B_full_table \<and>
   entry_count scenario_B_full_table < 2 ^ 32 \<and>
   unat (size_hm scenario_B_full_table) = entry_count scenario_B_full_table"
proof -
  let ?c = "int_to_int demo_memory"
  let ?rs = "hashmap_resize (int_to_int demo_memory) grow_odd"
  have h: "(4 :: 32 word) \<noteq> 0" by simp
  have kc: "resize_keeps_count ?rs"
    by (rule hashmap_resize_keeps_count [OF keeps_positive_grow_odd])
  have n: "entry_count scenario_B_full_table < 2 ^ 32"
    by (simp add: entry_count_def scenario_B_full_table_def vector_size_def)
  from size_is_entry_count [OF h int_resize_keeps_valid hashmap_resize_keeps_size kc,
      where c = ?c and esz = 8 and ops = "[Op_add 131073 196608, Op_get 131073 0,
        Op_add 131078 196612, Op_add 131083 196616, Op_get 7 0, Op_add 131088 196620]"]
  obtain hm where r: "run ?rs ?c
        [Op_add 131073 196608, Op_get 131073 0, Op_add 131078 196612, Op_add 131083 196616,
         Op_get 7 0, Op_add 131088 196620]
        (new_hashmap_cap 4 8) = Some hm"
    and i: "entry_count hm < 2 ^ 32 \<longrightarrow> unat (size_hm hm) = entry_count hm"
    by blast
  from r have "hm = scenario_B_full_table"
    unfolding scenario_B_full_run by simp
  with i n have "unat (size_hm scenario_B_full_table) = entry_count scenario_B_full_table"
    by blast
  with h int_resize_keeps_valid [of demo_memory] hashmap_resize_keeps_size [of ?c grow_odd] kc
    scenario_B_full_run n
  show ?thesis by simp
qed

subsection \<open>C9\<close>

text \<open>
  Claim C9 (the code does not do this). Every stored entry should be in the bucket whose
  index is the hash of the entry's key modulo the capacity. In the generated instance
  \<^verbatim>\<open>add\<close> takes the bucket from the hash of the key it is given and stores, as the
  entry's key, the \<^verbatim>\<open>int\<close> read at the address that the key is. After
  \<^verbatim>\<open>add(65536, 65540)\<close> on a new table the entry with the key 7 is in bucket 4
  (65536 modulo 127), and bucket 7, the bucket of the hash of its key, is absent.
\<close>

theorem stored_key_not_in_hash_bucket:
  "map_option (\<lambda>hm. (capacity hm, buckets hm ! 4, buckets hm ! 7))
     (run (hashmap_resize (int_to_int demo_memory) grow_odd) (int_to_int demo_memory)
        [Op_add 65536 65540] (new_hashmap 8)) =
     Some (127, Some [Entry 7 99], None) \<and>
   unat (hash (int_to_int demo_memory) (entry_key (Entry 7 (99 :: 32 word))) mod 127) = 7"
  by code_simp

subsection \<open>C10\<close>

text \<open>
  Claim C10. A call of \<^verbatim>\<open>get\<close> leaves the table as it was, and when it returns false
  the output location is as it was. On a valid table the call is defined.
\<close>

theorem get_frame:
  "(valid hm \<longrightarrow> get_hashmap c hm k out \<noteq> None) \<and>
   (\<forall>found out' hm'. get_hashmap c hm k out = Some (found, out', hm') \<longrightarrow>
      hm' = hm \<and> (\<not> found \<longrightarrow> out' = out))"
proof
  show "valid hm \<longrightarrow> get_hashmap c hm k out \<noteq> None"
    by (simp add: get_hashmap_find)
next
  show "\<forall>found out' hm'. get_hashmap c hm k out = Some (found, out', hm') \<longrightarrow>
      hm' = hm \<and> (\<not> found \<longrightarrow> out' = out)"
    by (auto simp add: get_hashmap_def get_scan_find Let_def
             split: if_splits option.splits prod.splits)
qed

theorem get_frame_witness:
  "valid scenario_B_table \<and>
   get_hashmap (int_to_int demo_memory) scenario_B_table 131093 77 =
     Some (False, 77, scenario_B_table) \<and>
   get_hashmap (int_to_int demo_memory) scenario_B_table 131088 77 =
     Some (False, 77, scenario_B_table) \<and>
   (\<exists>out'. get_hashmap (int_to_int demo_memory) scenario_B_table 131078 77 =
             Some (True, out', scenario_B_table))"
proof -
  let ?c = "int_to_int demo_memory"
  have a: "fst (the (get_hashmap ?c scenario_B_table 131093 77)) = False"
    and b: "fst (the (get_hashmap ?c scenario_B_table 131088 77)) = False"
    and c: "fst (the (get_hashmap ?c scenario_B_table 131078 77)) = True"
    by code_simp+
  from get_frame [of scenario_B_table ?c 131093 77] valid_scenario_B_table a
  have "get_hashmap ?c scenario_B_table 131093 77 = Some (False, 77, scenario_B_table)"
    by (cases "get_hashmap ?c scenario_B_table 131093 77") auto
  moreover
  from get_frame [of scenario_B_table ?c 131088 77] valid_scenario_B_table b
  have "get_hashmap ?c scenario_B_table 131088 77 = Some (False, 77, scenario_B_table)"
    by (cases "get_hashmap ?c scenario_B_table 131088 77") auto
  moreover
  from get_frame [of scenario_B_table ?c 131078 77] valid_scenario_B_table c
  have "\<exists>out'. get_hashmap ?c scenario_B_table 131078 77 = Some (True, out', scenario_B_table)"
    by (cases "get_hashmap ?c scenario_B_table 131078 77") auto
  ultimately show ?thesis
    using valid_scenario_B_table by simp
qed

end
